theory Spec2Isabelle
  imports Complex_Main
begin

section \<open>The mail delivery robot simulation\<close>

text \<open>
  A shallow embedding of the delivery simulation (road graph, village state, robots and
  route search). A location is a JavaScript string, modelled as \<open>string\<close>. The only
  character the program inspects is the separator \<open>-\<close>, an ASCII character, so reading a
  string as its bytes or as its UTF-16 code units splits it at the same places.

  Every \<open>TypeError\<close> the program can raise (reading a property of \<open>undefined\<close>,
  iterating \<open>undefined\<close>) is a value of the type \<open>error\<close>; a result is
  \<open>error + 'a\<close> with \<open>Inl\<close> the error. Where a JavaScript value may be \<open>undefined\<close> it
  has an option type and \<open>None\<close> is \<open>undefined\<close>.
\<close>

datatype error = TypeError

subsection \<open>Road connections and the graph builder\<close>

definition roads :: "string list" where
  "roads =
   [''Alice's House-Bob's House'',
    ''Alice's House-Cabin'',
    ''Alice's House-Post Office'',
    ''Bob's House-Town Hall'',
    ''Daria's House-Ernie's House'',
    ''Daria's House-Town Hall'',
    ''Ernie's House-Grete's House'',
    ''Grete's House-Farm'',
    ''Grete's House-Shop'',
    ''Marketplace-Farm'',
    ''Marketplace-Post Office'',
    ''Marketplace-Shop'',
    ''Shop-Town Hall'']"

text \<open>
  The graph is an object without prototype whose properties are arrays of locations. It is
  an association list in the order in which the properties were created, so that
  \<open>Object.keys\<close> is the list of its first components (no label of the road graph is an
  array index, which JavaScript would enumerate first; but for one example on the road
  graph, only the set and the number of the keys matter below). \<open>graph[k]\<close> is
  \<open>lookup graph k\<close>, and \<open>None\<close> is \<open>undefined\<close>.
\<close>

type_synonym graph = "(string \<times> string list) list"

definition lookup :: "graph \<Rightarrow> string \<Rightarrow> string list option" where
  "lookup graph k = map_of graph k"

definition Object_keys :: "graph \<Rightarrow> string list" where
  "Object_keys graph = map fst graph"

text \<open>\<open>r.split("-")\<close>: the pieces of \<open>r\<close> between the separators, at least one piece.\<close>

fun split :: "char \<Rightarrow> string \<Rightarrow> string list" where
  "split sep [] = [[]]"
| "split sep (c # cs) =
     (if c = sep then [] # split sep cs
      else (case split sep cs of [] \<Rightarrow> [[c]] | w # ws \<Rightarrow> (c # w) # ws))"

text \<open>
  The destructuring \<open>[from, to]\<close> takes the first two pieces and ignores the others. With
  fewer than two pieces \<open>to\<close> is \<open>undefined\<close> and the edge is malformed: the model stops
  there with \<open>None\<close>, where the source goes on and files the edge under the label
  \<open>undefined\<close>.
\<close>

definition endpoints :: "string \<Rightarrow> (string \<times> string) option" where
  "endpoints r = (case split CHR ''-'' r of a # b # _ \<Rightarrow> Some (a, b) | _ \<Rightarrow> None)"

fun all_endpoints :: "string list \<Rightarrow> (string \<times> string) list option" where
  "all_endpoints [] = Some []"
| "all_endpoints (r # rs) =
     (case endpoints r of None \<Rightarrow> None
      | Some e \<Rightarrow> (case all_endpoints rs of None \<Rightarrow> None | Some es \<Rightarrow> Some (e # es)))"

text \<open>\<open>addEdge\<close> updates the graph of the enclosing \<open>buildGraph\<close>, passed here as a state.\<close>

fun addEdge :: "graph \<Rightarrow> string \<Rightarrow> string \<Rightarrow> graph" where
  "addEdge [] from to = [(from, [to])]"
| "addEdge ((k, ns) # graph) from to =
     (if k = from then (k, ns @ [to]) # graph else (k, ns) # addEdge graph from to)"

fun addEdges :: "graph \<Rightarrow> (string \<times> string) list \<Rightarrow> graph" where
  "addEdges graph [] = graph"
| "addEdges graph ((from, to) # es) = addEdges (addEdge (addEdge graph from to) to from) es"

definition buildGraph :: "string list \<Rightarrow> graph option" where
  "buildGraph edges = map_option (addEdges []) (all_endpoints edges)"

definition roadGraph :: graph where
  "roadGraph = (case buildGraph roads of Some graph \<Rightarrow> graph | None \<Rightarrow> [])"

subsection \<open>Village state\<close>

text \<open>
  A parcel and a village state are objects with two properties each. The types have the
  type of locations as a parameter: \<open>move\<close> and the robots work on strings, the scenario
  generator on strings or \<open>undefined\<close>.
\<close>

datatype 'l parcel = Parcel (place: 'l) (address: 'l)

datatype 'l VillageState = VillageState (place: 'l) (parcels: "'l parcel list")

text \<open>
  \<open>move\<close> reads the global \<open>roadGraph\<close>; \<open>move_in\<close> has the graph as a parameter. The
  call \<open>roadGraph[this.place].includes\<close> raises when \<open>this.place\<close> is no property of the
  graph.
\<close>

definition move_in :: "graph \<Rightarrow> string VillageState \<Rightarrow> string \<Rightarrow> error + string VillageState" where
  "move_in graph this destination =
     (case lookup graph (VillageState.place this) of
        None \<Rightarrow> Inl TypeError
      | Some ns \<Rightarrow>
          if destination \<notin> set ns then Inr this
          else
            let parcels =
              filter (\<lambda>p. parcel.place p \<noteq> address p)
                (map (\<lambda>p. if parcel.place p \<noteq> VillageState.place this then p
                          else Parcel destination (address p))
                   (parcels this))
            in Inr (VillageState destination parcels))"

definition move :: "string VillageState \<Rightarrow> string \<Rightarrow> error + string VillageState" where
  "move = move_in roadGraph"

subsection \<open>The random source\<close>

text \<open>
  \<open>Math.random()\<close> is a parameter: the number it returns, a real number \<open>r\<close> with
  \<open>0 \<le> r < 1\<close>. The model takes the product \<open>Math.random() * array.length\<close> exactly.
  The source rounds it to a double, which stays below the length (for lengths below
  \<open>2^53\<close>): every index the source can compute is the index of the model for some \<open>r\<close>
  of the same range, so what holds in the model for all such \<open>r\<close> holds for the source.
  An index outside the array reads \<open>undefined\<close>.
\<close>

definition randomPick :: "real \<Rightarrow> 'a list \<Rightarrow> 'a option" where
  "randomPick r array =
     (let choice = \<lfloor>r * real (length array)\<rfloor>
      in if 0 \<le> choice \<and> choice < int (length array) then Some (array ! nat choice) else None)"

text \<open>
  The scenario generator calls \<open>Math.random\<close> many times: \<open>rnd\<close> is the sequence of the
  numbers returned and \<open>n\<close> counts the calls made so far. The \<open>do ... while\<close> loop has no
  bound, so it is a partial function, and \<open>None\<close> says that it does not return.
\<close>

partial_function (option) resample ::
  "(nat \<Rightarrow> real) \<Rightarrow> nat \<Rightarrow> string list \<Rightarrow> string option \<Rightarrow> (string option \<times> nat) option" where
  "resample rnd n keys addr =
     (let p = randomPick (rnd n) keys
      in if p = addr then resample rnd (Suc n) keys addr else Some (p, Suc n))"

text \<open>
  The \<open>for\<close> loop, with the number of iterations left as its first counter: for an
  integer \<open>parcelCount\<close> the loop runs \<open>nat parcelCount\<close> times, not at all when it is
  negative. The caller passes the count (the source has \<open>5\<close> as its default).
\<close>

fun generate ::
  "(nat \<Rightarrow> real) \<Rightarrow> string list \<Rightarrow> nat \<Rightarrow> nat \<Rightarrow> string option parcel list \<Rightarrow>
   (string option parcel list \<times> nat) option" where
  "generate rnd keys 0 n acc = Some (acc, n)"
| "generate rnd keys (Suc k) n acc =
     (let addr = randomPick (rnd n) keys
      in case resample rnd (Suc n) keys addr of
           None \<Rightarrow> None
         | Some (p, n') \<Rightarrow> generate rnd keys k n' (acc @ [Parcel p addr]))"

definition random_in ::
  "graph \<Rightarrow> (nat \<Rightarrow> real) \<Rightarrow> nat \<Rightarrow> int \<Rightarrow> (string option VillageState \<times> nat) option" where
  "random_in graph rnd n parcelCount =
     (case generate rnd (Object_keys graph) (nat parcelCount) n [] of
        None \<Rightarrow> None
      | Some (ps, n') \<Rightarrow> Some (VillageState (Some ''Post Office'') ps, n'))"

definition VillageState_random ::
  "(nat \<Rightarrow> real) \<Rightarrow> nat \<Rightarrow> int \<Rightarrow> (string option VillageState \<times> nat) option" where
  "VillageState_random = random_in roadGraph"

subsection \<open>Robots\<close>

text \<open>
  A robot returns an object with a \<open>direction\<close> and, but for the random robot, a
  \<open>memory\<close>. \<open>xs[0]\<close> is \<open>first xs\<close> and \<open>xs.slice(1)\<close> is \<open>drop 1 xs\<close>.
\<close>

datatype action = Action (direction: "string option") (memory: "string list option")

definition first :: "'a list \<Rightarrow> 'a option" where
  "first xs = (case xs of [] \<Rightarrow> None | x # _ \<Rightarrow> Some x)"

definition randomRobot :: "real \<Rightarrow> string VillageState \<Rightarrow> error + action" where
  "randomRobot r state =
     (case lookup roadGraph (VillageState.place state) of
        None \<Rightarrow> Inl TypeError
      | Some ns \<Rightarrow> Inr (Action (randomPick r ns) None))"

definition mailRoute :: "string list" where
  "mailRoute =
   [''Alice's House'',
    ''Cabin'',
    ''Alice's House'',
    ''Bob's House'',
    ''Town Hall'',
    ''Daria's House'',
    ''Ernie's House'',
    ''Grete's House'',
    ''Shop'',
    ''Grete's House'',
    ''Farm'',
    ''Marketplace'',
    ''Post Office'']"

definition routeRobot :: "'l VillageState \<Rightarrow> string list \<Rightarrow> action" where
  "routeRobot state m =
     (let m = (if length m = 0 then mailRoute else m)
      in Action (first m) (Some (drop 1 m)))"

subsection \<open>Route search\<close>

text \<open>
  The work list holds objects with the properties \<open>at\<close> and \<open>route\<close>. \<open>scan\<close> is the
  inner loop over the neighbours of one place: it ends with \<open>Inl\<close> of the route returned
  by \<open>findRoute\<close>, or with \<open>Inr\<close> of the work list after the loop. \<open>explore\<close> is the
  outer loop from index \<open>i\<close>; it falls off the end of the work list with \<open>undefined\<close>, and
  iterating \<open>graph[at]\<close> raises when \<open>at\<close> is no property of the graph.
\<close>

datatype work_item = Work (at: string) (route: "string list")

fun scan ::
  "string \<Rightarrow> string list \<Rightarrow> string list \<Rightarrow> work_item list \<Rightarrow> string list + work_item list" where
  "scan to rt [] work = Inr work"
| "scan to rt (p # rest) work =
     (if p = to then Inl (rt @ [p])
      else if \<not> list_ex (\<lambda>w. work_item.at w = p) work
        then scan to rt rest (work @ [Work p (rt @ [p])])
        else scan to rt rest work)"

function explore :: "graph \<Rightarrow> string \<Rightarrow> nat \<Rightarrow> work_item list \<Rightarrow> error + string list option" where
  "explore graph to i work =
     (if i < length work then
        (case lookup graph (work_item.at (work ! i)) of
           None \<Rightarrow> Inl TypeError
         | Some ns \<Rightarrow>
             (case scan to (route (work ! i)) ns work of
                Inl found \<Rightarrow> Inr (Some found)
              | Inr work' \<Rightarrow> explore graph to (i + 1) work'))
      else Inr None)"
  by pat_completeness auto

definition findRoute :: "graph \<Rightarrow> string \<Rightarrow> string \<Rightarrow> error + string list option" where
  "findRoute graph from to = explore graph to 0 [Work from []]"

text \<open>
  \<open>parcels[0]\<close> of an empty array is \<open>undefined\<close>, whose property \<open>place\<close> cannot be
  read, and neither can the element \<open>0\<close> of the \<open>undefined\<close> that \<open>findRoute\<close> returns
  when it finds no route.
\<close>

definition goalOrientedRobot :: "string VillageState \<Rightarrow> string list \<Rightarrow> error + action" where
  "goalOrientedRobot state rt =
     (if length rt = 0 then
        (case parcels state of
           [] \<Rightarrow> Inl TypeError
         | parcel # _ \<Rightarrow>
             (case (if parcel.place parcel \<noteq> VillageState.place state
                    then findRoute roadGraph (VillageState.place state) (parcel.place parcel)
                    else findRoute roadGraph (VillageState.place state) (address parcel)) of
                Inl e \<Rightarrow> Inl e
              | Inr None \<Rightarrow> Inl TypeError
              | Inr (Some rt') \<Rightarrow> Inr (Action (first rt') (Some (drop 1 rt')))))
      else Inr (Action (first rt) (Some (drop 1 rt))))"

subsection \<open>Paths of a graph\<close>

text \<open>
  \<open>neighbours graph a\<close> is the adjacency array of \<open>a\<close>, empty for a label that is no
  vertex. \<open>path graph a ps\<close>: the places \<open>ps\<close> are visited in this order by a walk that
  starts at \<open>a\<close> and follows one road per step; the walk has \<open>length ps\<close> hops and ends at
  \<open>last (a # ps)\<close>.
\<close>

definition neighbours :: "graph \<Rightarrow> string \<Rightarrow> string list" where
  "neighbours graph a = (case lookup graph a of None \<Rightarrow> [] | Some ns \<Rightarrow> ns)"

fun path :: "graph \<Rightarrow> string \<Rightarrow> string list \<Rightarrow> bool" where
  "path graph a [] = True"
| "path graph a (b # ps) = (b \<in> set (neighbours graph a) \<and> path graph b ps)"

definition reachable :: "graph \<Rightarrow> string \<Rightarrow> string \<Rightarrow> bool" where
  "reachable graph a b = (\<exists>ps. path graph a ps \<and> last (a # ps) = b)"

text \<open>All labels that occur in some adjacency array.\<close>

definition places :: "graph \<Rightarrow> string set" where
  "places graph = (\<Union>(k, ns) \<in> set graph. set ns)"

text \<open>
  A graph is closed when every neighbour of a vertex is itself a vertex. A symmetric graph
  is closed: a neighbour \<open>b\<close> of \<open>a\<close> has \<open>a\<close> in its own adjacency array.
\<close>

definition closed :: "graph \<Rightarrow> bool" where
  "closed graph =
     (\<forall>k \<in> set (Object_keys graph). \<forall>b \<in> set (neighbours graph k). b \<in> set (Object_keys graph))"

text \<open>
  \<open>shortest graph a b r\<close>: the route \<open>r\<close> is a walk from \<open>a\<close> that ends at \<open>b\<close>, and no
  walk from \<open>a\<close> that ends at \<open>b\<close> has fewer hops. The number of hops of \<open>r\<close> is then the
  distance from \<open>a\<close> to \<open>b\<close>.
\<close>

definition shortest :: "graph \<Rightarrow> string \<Rightarrow> string \<Rightarrow> string list \<Rightarrow> bool" where
  "shortest graph a b r =
     (path graph a r \<and> last (a # r) = b \<and>
      (\<forall>ps. path graph a ps \<and> last (a # ps) = b \<longrightarrow> length r \<le> length ps))"

text \<open>
  The invariant of the outer loop of \<open>findRoute\<close> at index \<open>i\<close>: the places of the work
  list are distinct vertices other than the target; each item holds a shortest route to
  its place, which does not pass through the start; the routes grow along the list, by at
  most one hop beyond the route of item \<open>i\<close>; and every neighbour of an item before \<open>i\<close> is
  in the work list.
\<close>

definition search_inv :: "graph \<Rightarrow> string \<Rightarrow> string \<Rightarrow> nat \<Rightarrow> work_item list \<Rightarrow> bool" where
  "search_inv graph from to i work =
     (i \<le> length work \<and>
      distinct (map work_item.at work) \<and>
      (\<forall>w \<in> set work. shortest graph from (work_item.at w) (route w) \<and> from \<notin> set (route w) \<and>
         work_item.at w \<noteq> to \<and> work_item.at w \<in> set (Object_keys graph)) \<and>
      sorted (map (\<lambda>w. length (route w)) work) \<and>
      (i < length work \<longrightarrow> (\<forall>w \<in> set work. length (route w) \<le> Suc (length (route (work ! i))))) \<and>
      (\<forall>j < i. set (neighbours graph (work_item.at (work ! j))) \<subseteq> work_item.at ` set work) \<and>
      from \<in> work_item.at ` set work)"

text \<open>
  A graph is symmetric with multiplicity when \<open>b\<close> occurs in the adjacency array of \<open>a\<close>
  as often as \<open>a\<close> occurs in that of \<open>b\<close>.
\<close>

definition symmetric :: "graph \<Rightarrow> bool" where
  "symmetric graph = (\<forall>a b. count_list (neighbours graph a) b = count_list (neighbours graph b) a)"

text \<open>
  What a list of edge strings declares, said without \<open>split\<close>. An edge string is well
  formed when it contains the separator. Its first label is the text before the first
  separator, its second label the text between the first separator and the next one (or
  the end). \<open>declared edges a b\<close> counts the strings of the list that declare the edge
  from \<open>a\<close> to \<open>b\<close>.
\<close>

definition well_formed :: "string list \<Rightarrow> bool" where
  "well_formed edges = list_all (\<lambda>r. CHR ''-'' \<in> set r) edges"

definition first_label :: "string \<Rightarrow> string" where
  "first_label r = takeWhile (\<lambda>c. c \<noteq> CHR ''-'') r"

definition second_label :: "string \<Rightarrow> string" where
  "second_label r = takeWhile (\<lambda>c. c \<noteq> CHR ''-'') (tl (dropWhile (\<lambda>c. c \<noteq> CHR ''-'') r))"

definition declared :: "string list \<Rightarrow> string \<Rightarrow> string \<Rightarrow> nat" where
  "declared edges a b = length (filter (\<lambda>r. first_label r = a \<and> second_label r = b) edges)"

text \<open>A random source that returns \<open>0\<close> and \<open>1 / 2\<close> in turn.\<close>

definition alternating_source :: "nat \<Rightarrow> real" where
  "alternating_source i = (if even i then 0 else 1 / 2)"

section \<open>Termination of the route search\<close>

lemma finite_places: "finite (places graph)"
  by (auto simp: places_def)

lemma lookup_places: "lookup graph k = Some ns \<Longrightarrow> set ns \<subseteq> places graph"
  by (auto simp: lookup_def places_def dest!: map_of_SomeD)

text \<open>The inner loop only appends to the work list.\<close>

lemma scan_appends: "scan to rt ns work = Inr work' \<Longrightarrow> \<exists>new. work' = work @ new"
proof (induction ns arbitrary: work)
  case Nil
  then show ?case by simp
next
  case (Cons p rest)
  show ?case
  proof (cases "p \<noteq> to \<and> \<not> list_ex (\<lambda>w. work_item.at w = p) work")
    case True
    with Cons.prems have "scan to rt rest (work @ [Work p (rt @ [p])]) = Inr work'" by simp
    from Cons.IH[OF this] show ?thesis by auto
  next
    case False
    with Cons.prems have "scan to rt rest work = Inr work'" by (auto split: if_splits)
    from Cons.IH[OF this] show ?thesis .
  qed
qed

text \<open>
  Every item it appends is at a place that was not in the work list: the number of places
  still outside the work list falls by the number of items appended.
\<close>

lemma scan_measure:
  "scan to rt ns work = Inr work' \<Longrightarrow> set ns \<subseteq> U \<Longrightarrow> finite U \<Longrightarrow>
   card (U - work_item.at ` set work') + length work' =
   card (U - work_item.at ` set work) + length work"
proof (induction ns arbitrary: work)
  case Nil
  then show ?case by simp
next
  case (Cons p rest)
  show ?case
  proof (cases "list_ex (\<lambda>w. work_item.at w = p) work")
    case True
    with Cons show ?thesis by (auto split: if_splits)
  next
    case False
    let ?w = "work @ [Work p (rt @ [p])]"
    from False Cons.prems have sc: "scan to rt rest ?w = Inr work'"
      by (auto split: if_splits)
    from False have notin: "p \<notin> work_item.at ` set work"
      by (auto simp: list_ex_iff)
    have inU: "p \<in> U" using Cons.prems by simp
    have "U - work_item.at ` set ?w = (U - work_item.at ` set work) - {p}" by auto
    moreover have "p \<in> U - work_item.at ` set work" using notin inU by simp
    ultimately have "card (U - work_item.at ` set ?w) + 1 = card (U - work_item.at ` set work)"
      using Cons.prems(3)
      by (metis Suc_eq_plus1 card_Suc_Diff1 finite_Diff)
    moreover have "card (U - work_item.at ` set work') + length work' =
        card (U - work_item.at ` set ?w) + length ?w"
      using Cons.IH[OF sc] Cons.prems by simp
    ultimately show ?thesis by simp
  qed
qed

termination explore
proof (relation "measure (\<lambda>(graph, to, i, work).
    card (places graph - work_item.at ` set work) + (length work - i))")
  show "wf (measure (\<lambda>(graph, to, i, work).
    card (places graph - work_item.at ` set work) + (length work - i)))"
    by simp
next
  fix graph :: graph and to :: string and i :: nat and work ns work'
  assume i: "i < length work"
    and l: "lookup graph (work_item.at (work ! i)) = Some ns"
    and s: "scan to (route (work ! i)) ns work = Inr work'"
  have "card (places graph - work_item.at ` set work') + length work' =
      card (places graph - work_item.at ` set work) + length work"
    using scan_measure[OF s lookup_places[OF l] finite_places] .
  then show "((graph, to, i + 1, work'), (graph, to, i, work)) \<in> measure (\<lambda>(graph, to, i, work).
      card (places graph - work_item.at ` set work) + (length work - i))"
    using i scan_appends[OF s] by auto
qed

text \<open>The equation of \<open>explore\<close> is unfolded one iteration at a time.\<close>

declare explore.simps [simp del]

section \<open>The road graph\<close>

lemma buildGraph_roads: "buildGraph roads = Some roadGraph"
  by (simp add: roadGraph_def buildGraph_def roads_def endpoints_def)

lemma roadGraph_eq:
  "roadGraph =
   [(''Alice's House'', [''Bob's House'', ''Cabin'', ''Post Office'']),
    (''Bob's House'', [''Alice's House'', ''Town Hall'']),
    (''Cabin'', [''Alice's House'']),
    (''Post Office'', [''Alice's House'', ''Marketplace'']),
    (''Town Hall'', [''Bob's House'', ''Daria's House'', ''Shop'']),
    (''Daria's House'', [''Ernie's House'', ''Town Hall'']),
    (''Ernie's House'', [''Daria's House'', ''Grete's House'']),
    (''Grete's House'', [''Ernie's House'', ''Farm'', ''Shop'']),
    (''Farm'', [''Grete's House'', ''Marketplace'']),
    (''Shop'', [''Grete's House'', ''Marketplace'', ''Town Hall'']),
    (''Marketplace'', [''Farm'', ''Post Office'', ''Shop''])]"
  by (simp add: roadGraph_def buildGraph_def roads_def endpoints_def)

lemma lookup_None_iff: "lookup graph k = None \<longleftrightarrow> k \<notin> set (Object_keys graph)"
  by (simp add: lookup_def Object_keys_def map_of_eq_None_iff)

lemma lookup_neighbours:
  "k \<in> set (Object_keys graph) \<Longrightarrow> lookup graph k = Some (neighbours graph k)"
  using lookup_None_iff[of graph k] by (auto simp: neighbours_def)

section \<open>Moving\<close>

text \<open>
  C1. When the destination \<open>d\<close> is a neighbour of the place of the state \<open>s\<close> in the road
  graph, \<open>move\<close> returns a new state at \<open>d\<close>. Its parcels are those of \<open>s\<close>, in their
  order, where each parcel that was at the old place is now at \<open>d\<close> and every other parcel
  is as it was, without the parcels that are then at their address. So no parcel of the
  new state is at its address, and there are at most as many parcels as before.
\<close>

theorem move_to_neighbour:
  assumes "d \<in> set (neighbours roadGraph (VillageState.place s))"
  shows "\<exists>s'. move s d = Inr s' \<and> VillageState.place s' = d \<and>
    parcels s' =
      filter (\<lambda>p. parcel.place p \<noteq> address p)
        (map (\<lambda>p. if parcel.place p = VillageState.place s then Parcel d (address p) else p)
          (parcels s)) \<and>
    (\<forall>p \<in> set (parcels s'). parcel.place p \<noteq> address p) \<and>
    length (parcels s') \<le> length (parcels s)"
proof (cases "lookup roadGraph (VillageState.place s)")
  case None
  with assms show ?thesis by (simp add: neighbours_def)
next
  case (Some ns)
  with assms have d: "d \<in> set ns" by (simp add: neighbours_def)
  let ?carry = "\<lambda>p. if parcel.place p \<noteq> VillageState.place s then p else Parcel d (address p)"
  let ?ps = "filter (\<lambda>p. parcel.place p \<noteq> address p) (map ?carry (parcels s))"
  have m: "move s d = Inr (VillageState d ?ps)"
    using Some d by (simp add: move_def move_in_def)
  have c: "?carry = (\<lambda>p. if parcel.place p = VillageState.place s then Parcel d (address p) else p)"
    by auto
  show ?thesis
    unfolding m by (simp add: c)
qed

text \<open>
  At the post office with two parcels there and one at the farm, a move to the marketplace
  delivers the first parcel, carries the second and leaves the third.
\<close>

theorem move_to_neighbour_witness:
  "''Marketplace'' \<in> set (neighbours roadGraph ''Post Office'') \<and>
   move (VillageState ''Post Office''
          [Parcel ''Post Office'' ''Marketplace'', Parcel ''Post Office'' ''Shop'',
           Parcel ''Farm'' ''Cabin'']) ''Marketplace'' =
     Inr (VillageState ''Marketplace'' [Parcel ''Marketplace'' ''Shop'', Parcel ''Farm'' ''Cabin''])"
proof -
  have h: "''Marketplace'' \<in> set (neighbours roadGraph ''Post Office'')"
    by (simp add: roadGraph_eq neighbours_def lookup_def)
  have "''Marketplace'' \<in> set (neighbours roadGraph (VillageState.place (VillageState ''Post Office''
          [Parcel ''Post Office'' ''Marketplace'', Parcel ''Post Office'' ''Shop'',
           Parcel ''Farm'' ''Cabin''])))"
    using h by simp
  from move_to_neighbour[OF this] h show ?thesis
    by (auto simp: VillageState.expand)
qed

text \<open>
  C2. A world state is at a vertex of the road graph (the invariant of the data model).
  When the destination \<open>d\<close> is no neighbour of that place, \<open>move\<close> raises no error and
  returns the very state it was given.
\<close>

theorem move_not_neighbour:
  assumes "VillageState.place s \<in> set (Object_keys roadGraph)"
    and "d \<notin> set (neighbours roadGraph (VillageState.place s))"
  shows "move s d = Inr s"
proof -
  from assms(1) obtain ns where ns: "lookup roadGraph (VillageState.place s) = Some ns"
    using lookup_None_iff[of roadGraph "VillageState.place s"] by auto
  with assms(2) have "d \<notin> set ns" by (simp add: neighbours_def)
  with ns show ?thesis by (simp add: move_def move_in_def)
qed

theorem move_not_neighbour_witness:
  "''Post Office'' \<in> set (Object_keys roadGraph) \<and>
   ''Farm'' \<notin> set (neighbours roadGraph ''Post Office'') \<and>
   move (VillageState ''Post Office'' [Parcel ''Post Office'' ''Farm'']) ''Farm'' =
     Inr (VillageState ''Post Office'' [Parcel ''Post Office'' ''Farm''])"
  using move_not_neighbour[of "VillageState ''Post Office'' [Parcel ''Post Office'' ''Farm'']" "''Farm''"]
  by (simp add: roadGraph_eq neighbours_def lookup_def Object_keys_def)

text \<open>
  Outside the data model, in a state whose place is no vertex of the road graph, the
  lookup is \<open>undefined\<close> and the call of \<open>includes\<close> raises.
\<close>

lemma move_unknown_place:
  "VillageState.place s \<notin> set (Object_keys roadGraph) \<Longrightarrow> move s d = Inl TypeError"
  using lookup_None_iff[of roadGraph "VillageState.place s"]
  by (simp add: move_def move_in_def)

section \<open>The route robot\<close>

lemma first_hd: "m \<noteq> [] \<Longrightarrow> first m = Some (hd m)"
  by (cases m) (simp_all add: first_def)

text \<open>
  C8. With an empty memory the route robot starts the mail route again: the direction is
  the first place of the mail route and the memory returned is the rest of it. With a
  memory \<open>m\<close> that is not empty the direction is the first element of \<open>m\<close> and the memory
  returned is \<open>m\<close> without it. The state has no influence on the result.
\<close>

theorem routeRobot_head_tail:
  "(m = [] \<longrightarrow> routeRobot s m = Action (Some (hd mailRoute)) (Some (tl mailRoute))) \<and>
   (m \<noteq> [] \<longrightarrow> routeRobot s m = Action (Some (hd m)) (Some (tl m))) \<and>
   routeRobot s m = routeRobot s' m"
  by (simp add: routeRobot_def first_hd drop_Suc mailRoute_def)

theorem routeRobot_head_tail_witness:
  "routeRobot (VillageState ''Post Office'' []) [] =
     Action (Some ''Alice's House'')
       (Some [''Cabin'', ''Alice's House'', ''Bob's House'', ''Town Hall'', ''Daria's House'',
         ''Ernie's House'', ''Grete's House'', ''Shop'', ''Grete's House'', ''Farm'',
         ''Marketplace'', ''Post Office'']) \<and>
   routeRobot (VillageState ''Post Office'' []) [''Cabin'', ''Alice's House''] =
     Action (Some ''Cabin'') (Some [''Alice's House'']) \<and>
   routeRobot (VillageState ''Post Office'' []) [''Cabin'', ''Alice's House''] =
     routeRobot (VillageState ''Farm'' [Parcel ''Farm'' ''Shop'']) [''Cabin'', ''Alice's House'']"
proof -
  note a = routeRobot_head_tail[of "[]" "VillageState ''Post Office'' []" "VillageState ''Farm'' []"]
  note b = routeRobot_head_tail[of "[''Cabin'', ''Alice's House'']" "VillageState ''Post Office'' []"
      "VillageState ''Farm'' [Parcel ''Farm'' ''Shop'']"]
  have 1: "routeRobot (VillageState ''Post Office'' []) [] =
     Action (Some ''Alice's House'')
       (Some [''Cabin'', ''Alice's House'', ''Bob's House'', ''Town Hall'', ''Daria's House'',
         ''Ernie's House'', ''Grete's House'', ''Shop'', ''Grete's House'', ''Farm'',
         ''Marketplace'', ''Post Office''])"
    using a[THEN conjunct1] by (simp add: mailRoute_def)
  have 2: "routeRobot (VillageState ''Post Office'' []) [''Cabin'', ''Alice's House''] =
     Action (Some ''Cabin'') (Some [''Alice's House''])"
    using b[THEN conjunct2, THEN conjunct1] by simp
  show ?thesis
    by (intro conjI) (rule 1, rule 2, rule b[THEN conjunct2, THEN conjunct2])
qed

section \<open>The graph builder\<close>

lemma lookup_addEdge:
  "lookup (addEdge graph a b) k = (if k = a then Some (neighbours graph a @ [b]) else lookup graph k)"
  by (induction graph a b rule: addEdge.induct) (auto simp: lookup_def neighbours_def)

lemma neighbours_addEdge:
  "neighbours (addEdge graph a b) k = (if k = a then neighbours graph a @ [b] else neighbours graph k)"
  by (simp add: neighbours_def[of "addEdge graph a b"] lookup_addEdge) (simp add: neighbours_def)

lemma keys_addEdge: "set (Object_keys (addEdge graph a b)) = insert a (set (Object_keys graph))"
  by (induction graph a b rule: addEdge.induct) (auto simp: Object_keys_def)

lemma symmetric_addEdge2: "symmetric graph \<Longrightarrow> symmetric (addEdge (addEdge graph a b) b a)"
  by (auto simp: symmetric_def neighbours_addEdge)

lemma symmetric_addEdges: "symmetric graph \<Longrightarrow> symmetric (addEdges graph es)"
  by (induction graph es rule: addEdges.induct) (simp_all add: symmetric_addEdge2)

lemma symmetric_empty: "symmetric []"
  by (simp add: symmetric_def neighbours_def lookup_def)

lemma buildGraph_symmetric: "buildGraph edges = Some graph \<Longrightarrow> symmetric graph"
  by (auto simp: buildGraph_def intro: symmetric_addEdges symmetric_empty)

text \<open>
  The pieces of \<open>split\<close>: the text before the first separator, then the pieces of what
  follows that separator. So the builder reads from a well-formed edge string its first
  and its second label, and returns a graph exactly when every edge string is well formed.
\<close>

lemma split_takeWhile:
  "split sep s = takeWhile (\<lambda>c. c \<noteq> sep) s #
     (if sep \<in> set s then split sep (tl (dropWhile (\<lambda>c. c \<noteq> sep) s)) else [])"
  by (induction s) auto

lemma endpoints_well_formed:
  assumes "CHR ''-'' \<in> set r"
  shows "endpoints r = Some (first_label r, second_label r)"
proof -
  let ?rest = "tl (dropWhile (\<lambda>c. c \<noteq> CHR ''-'') r)"
  have "split CHR ''-'' r = first_label r # split CHR ''-'' ?rest"
    using assms by (subst split_takeWhile) (simp add: first_label_def)
  moreover have "\<exists>ws. split CHR ''-'' ?rest = second_label r # ws"
    by (subst split_takeWhile) (simp add: second_label_def)
  ultimately show ?thesis by (auto simp: endpoints_def)
qed

lemma endpoints_malformed: "CHR ''-'' \<notin> set r \<Longrightarrow> endpoints r = None"
  by (subst endpoints_def, subst split_takeWhile) simp

lemma all_endpoints_well_formed:
  "well_formed edges \<Longrightarrow>
   all_endpoints edges = Some (map (\<lambda>r. (first_label r, second_label r)) edges)"
  by (induction edges) (simp_all add: well_formed_def endpoints_well_formed)

lemma all_endpoints_malformed: "\<not> well_formed edges \<Longrightarrow> all_endpoints edges = None"
  by (induction edges)
    (auto simp: well_formed_def endpoints_malformed endpoints_well_formed split: option.splits)

lemma buildGraph_defined_iff: "buildGraph edges \<noteq> None \<longleftrightarrow> well_formed edges"
proof (cases "well_formed edges")
  case True
  with all_endpoints_well_formed[OF True] show ?thesis by (simp add: buildGraph_def)
next
  case False
  with all_endpoints_malformed[OF False] show ?thesis by (simp add: buildGraph_def)
qed

lemma count_addEdge:
  "count_list (neighbours (addEdge graph x y) a) b =
   count_list (neighbours graph a) b + (if a = x \<and> b = y then 1 else 0)"
proof (cases "a = x")
  case True
  then show ?thesis by (simp add: neighbours_addEdge)
next
  case False
  then show ?thesis by (simp add: neighbours_addEdge)
qed

lemma count_Cons_pair:
  "count_list ((x, y) # es) (a, b) = count_list es (a, b) + (if a = x \<and> b = y then 1 else 0)"
  by (cases "a = x"; cases "b = y") auto

lemma count_addEdges:
  "count_list (neighbours (addEdges graph es) a) b =
   count_list (neighbours graph a) b + count_list es (a, b) + count_list es (b, a)"
proof (induction graph es rule: addEdges.induct)
  case (1 graph)
  show ?case by simp
next
  case (2 graph x y es)
  have "count_list (neighbours (addEdges graph ((x, y) # es)) a) b =
      count_list (neighbours (addEdge (addEdge graph x y) y x) a) b +
      count_list es (a, b) + count_list es (b, a)"
    by (simp only: addEdges.simps 2)
  also have "\<dots> = count_list (neighbours graph a) b + (if a = x \<and> b = y then 1 else 0) +
      (if a = y \<and> b = x then 1 else 0) + count_list es (a, b) + count_list es (b, a)"
    by (simp only: count_addEdge)
  also have "\<dots> = count_list (neighbours graph a) b + count_list ((x, y) # es) (a, b) +
      count_list ((x, y) # es) (b, a)"
    unfolding count_Cons_pair by (simp only: conj_commute[of "b = x" "a = y"] add_ac)
  finally show ?case .
qed

lemma keys_addEdges:
  "set (Object_keys (addEdges graph es)) = set (Object_keys graph) \<union> fst ` set es \<union> snd ` set es"
  by (induction graph es rule: addEdges.induct) (auto simp: keys_addEdge)

lemma count_declared:
  "count_list (map (\<lambda>r. (first_label r, second_label r)) edges) (a, b) = declared edges a b"
  by (induction edges) (simp_all add: declared_def)

text \<open>
  C5. For every list of well-formed edge strings \<open>buildGraph\<close> returns a graph. Its
  vertices are the labels of the edges. For all labels \<open>a\<close> and \<open>b\<close>, \<open>b\<close> occurs in the
  adjacency array of \<open>a\<close> once for every edge string that declares \<open>a-b\<close> and once for
  every edge string that declares \<open>b-a\<close>: an edge declared twice is entered twice in both
  directions. Hence \<open>a\<close> occurs in the adjacency array of \<open>b\<close> exactly as often as \<open>b\<close>
  occurs in that of \<open>a\<close>.
\<close>

theorem buildGraph_symmetric_count:
  assumes "well_formed edges"
  shows "\<exists>graph. buildGraph edges = Some graph \<and>
    set (Object_keys graph) = first_label ` set edges \<union> second_label ` set edges \<and>
    count_list (neighbours graph a) b = declared edges a b + declared edges b a \<and>
    count_list (neighbours graph b) a = count_list (neighbours graph a) b"
proof -
  let ?es = "map (\<lambda>r. (first_label r, second_label r)) edges"
  let ?g = "addEdges [] ?es"
  have b: "buildGraph edges = Some ?g"
    using all_endpoints_well_formed[OF assms] by (simp add: buildGraph_def)
  have e: "neighbours [] x = []" for x by (simp add: neighbours_def lookup_def)
  have c: "count_list (neighbours ?g x) y = declared edges x y + declared edges y x" for x y
    by (simp add: count_addEdges count_declared e)
  have "set (Object_keys ?g) = set (Object_keys []) \<union> fst ` set ?es \<union> snd ` set ?es"
    by (rule keys_addEdges)
  moreover have "Object_keys [] = []" by (simp add: Object_keys_def)
  moreover have "fst ` set ?es = first_label ` set edges" "snd ` set ?es = second_label ` set edges"
    by (simp_all add: image_image)
  ultimately have k: "set (Object_keys ?g) = first_label ` set edges \<union> second_label ` set edges"
    by simp
  from b k c[of a b] c[of b a] show ?thesis by simp
qed

text \<open>
  The list \<open>A-B\<close>, \<open>B-C\<close>, \<open>A-B\<close> declares the edge from \<open>A\<close> to \<open>B\<close> twice: \<open>B\<close> is
  twice in the adjacency array of \<open>A\<close>, and \<open>A\<close> twice in that of \<open>B\<close>.
\<close>

theorem buildGraph_symmetric_count_witness:
  "well_formed [''A-B'', ''B-C'', ''A-B''] \<and>
   buildGraph [''A-B'', ''B-C'', ''A-B''] =
     Some [(''A'', [''B'', ''B'']), (''B'', [''A'', ''C'', ''A'']), (''C'', [''B''])] \<and>
   declared [''A-B'', ''B-C'', ''A-B''] ''A'' ''B'' = 2 \<and>
   declared [''A-B'', ''B-C'', ''A-B''] ''B'' ''A'' = 0 \<and>
   count_list (neighbours [(''A'', [''B'', ''B'']), (''B'', [''A'', ''C'', ''A'']), (''C'', [''B''])] ''A'') ''B'' = 2 \<and>
   count_list (neighbours [(''A'', [''B'', ''B'']), (''B'', [''A'', ''C'', ''A'']), (''C'', [''B''])] ''B'') ''A'' = 2"
proof -
  let ?g = "[(''A'', [''B'', ''B'']), (''B'', [''A'', ''C'', ''A'']), (''C'', [''B''])]"
  have w: "well_formed [''A-B'', ''B-C'', ''A-B'']" by (simp add: well_formed_def)
  have b: "buildGraph [''A-B'', ''B-C'', ''A-B''] = Some ?g"
    by (simp add: buildGraph_def endpoints_def)
  have d: "declared [''A-B'', ''B-C'', ''A-B''] ''A'' ''B'' = 2"
    "declared [''A-B'', ''B-C'', ''A-B''] ''B'' ''A'' = 0"
    by (simp_all add: declared_def first_label_def second_label_def)
  from buildGraph_symmetric_count[OF w, of "''A''" "''B''"] b d
  have "count_list (neighbours ?g ''A'') ''B'' = 2" "count_list (neighbours ?g ''B'') ''A'' = 2"
    by auto
  with w b d show ?thesis by simp
qed

section \<open>The random robot\<close>

lemma adjacency_addEdge:
  "\<forall>k ns. lookup graph k = Some ns \<longrightarrow> ns \<noteq> [] \<Longrightarrow>
   \<forall>k ns. lookup (addEdge graph a b) k = Some ns \<longrightarrow> ns \<noteq> []"
  by (auto simp: lookup_addEdge split: if_splits)

lemma adjacency_addEdges:
  "\<forall>k ns. lookup graph k = Some ns \<longrightarrow> ns \<noteq> [] \<Longrightarrow>
   \<forall>k ns. lookup (addEdges graph es) k = Some ns \<longrightarrow> ns \<noteq> []"
proof (induction graph es rule: addEdges.induct)
  case (1 graph)
  then show ?case by simp
next
  case (2 graph a b es)
  show ?case
    unfolding addEdges.simps
    by (rule 2(1)) (intro adjacency_addEdge 2(2))
qed

lemma buildGraph_adjacency:
  "buildGraph edges = Some graph \<Longrightarrow> lookup graph k = Some ns \<Longrightarrow> ns \<noteq> []"
  using adjacency_addEdges[of "[]"] by (auto simp: buildGraph_def lookup_def)

lemma randomPick_in_range:
  assumes "0 \<le> r" and "r < 1" and "array \<noteq> []"
  shows "\<exists>i < length array. randomPick r array = Some (array ! i)"
proof -
  let ?n = "length array"
  let ?c = "\<lfloor>r * real ?n\<rfloor>"
  have n: "0 < real ?n" using assms(3) by simp
  have "0 \<le> r * real ?n" using assms(1) by simp
  then have lo: "0 \<le> ?c" by simp
  have "r * real ?n < real ?n" using assms(2) n by simp
  then have hi: "?c < int ?n" by (simp add: floor_less_iff)
  from lo hi have "nat ?c < ?n" by (simp only: nat_less_iff)
  moreover have "randomPick r array = Some (array ! nat ?c)"
    using lo hi by (simp add: randomPick_def)
  ultimately show ?thesis by blast
qed

text \<open>
  C10. In a state at a vertex of the road graph, whatever number \<open>0 \<le> r < 1\<close> the random
  source returns, the random robot returns a direction that is an element of the adjacency
  array of the place, and \<open>move\<close> to that direction takes the branch that builds a new
  state at the direction, not the branch that returns the old state.
\<close>

theorem randomRobot_direction_neighbour:
  assumes "0 \<le> r" and "r < 1" and "VillageState.place s \<in> set (Object_keys roadGraph)"
  shows "\<exists>d. randomRobot r s = Inr (Action (Some d) None) \<and>
    d \<in> set (neighbours roadGraph (VillageState.place s)) \<and>
    move s d = Inr (VillageState d
      (filter (\<lambda>p. parcel.place p \<noteq> address p)
        (map (\<lambda>p. if parcel.place p \<noteq> VillageState.place s then p else Parcel d (address p))
          (parcels s))))"
proof -
  from assms(3) obtain ns where ns: "lookup roadGraph (VillageState.place s) = Some ns"
    using lookup_None_iff[of roadGraph "VillageState.place s"] by auto
  have "ns \<noteq> []" using buildGraph_adjacency[OF buildGraph_roads ns] .
  from randomPick_in_range[OF assms(1,2) this]
  obtain i where i: "i < length ns" "randomPick r ns = Some (ns ! i)" by blast
  have "randomRobot r s = Inr (Action (Some (ns ! i)) None)"
    using ns i by (simp add: randomRobot_def)
  moreover have "ns ! i \<in> set ns" using i by simp
  moreover have "neighbours roadGraph (VillageState.place s) = ns"
    using ns by (simp add: neighbours_def)
  moreover have "move s (ns ! i) = Inr (VillageState (ns ! i)
      (filter (\<lambda>p. parcel.place p \<noteq> address p)
        (map (\<lambda>p. if parcel.place p \<noteq> VillageState.place s then p else Parcel (ns ! i) (address p))
          (parcels s))))"
    using ns \<open>ns ! i \<in> set ns\<close> by (simp add: move_def move_in_def)
  ultimately show ?thesis by blast
qed

theorem randomRobot_direction_neighbour_witness:
  "(0::real) \<le> 1 / 2 \<and> (1 / 2 :: real) < 1 \<and> ''Post Office'' \<in> set (Object_keys roadGraph) \<and>
   randomRobot (1 / 2) (VillageState ''Post Office'' [Parcel ''Post Office'' ''Shop'']) =
     Inr (Action (Some ''Marketplace'') None) \<and>
   move (VillageState ''Post Office'' [Parcel ''Post Office'' ''Shop'']) ''Marketplace'' =
     Inr (VillageState ''Marketplace'' [Parcel ''Marketplace'' ''Shop''])"
proof -
  let ?s = "VillageState ''Post Office'' [Parcel ''Post Office'' ''Shop'']"
  have k: "VillageState.place ?s \<in> set (Object_keys roadGraph)"
    by (simp add: roadGraph_eq Object_keys_def)
  have r: "randomRobot (1 / 2) ?s = Inr (Action (Some ''Marketplace'') None)"
    by (simp add: randomRobot_def randomPick_def roadGraph_eq lookup_def)
  from randomRobot_direction_neighbour[of "1 / 2" ?s, OF _ _ k]
  obtain d where d: "randomRobot (1 / 2) ?s = Inr (Action (Some d) None)"
    "move ?s d = Inr (VillageState d
      (filter (\<lambda>p. parcel.place p \<noteq> address p)
        (map (\<lambda>p. if parcel.place p \<noteq> VillageState.place ?s then p else Parcel d (address p))
          (parcels ?s))))"
    by auto
  from d(1) r have "d = ''Marketplace''" by simp
  with d(2) have "move ?s ''Marketplace'' = Inr (VillageState ''Marketplace'' [Parcel ''Marketplace'' ''Shop''])"
    by simp
  with r k show ?thesis by simp
qed

section \<open>The scenario generator\<close>

lemma resample_stuck:
  assumes "\<forall>i. randomPick (rnd i) keys = addr"
  shows "resample rnd n keys addr = None"
proof (rule ccontr)
  assume "resample rnd n keys addr \<noteq> None"
  then obtain y where y: "resample rnd n keys addr = Some y" by auto
  have "(\<forall>i. randomPick (rnd i) keys = addr) \<longrightarrow> False"
  proof (induction rule: resample.raw_induct[OF _ y])
    case (1 resample' rnd' n' keys' addr' y')
    show ?case
    proof
      assume a: "\<forall>i. randomPick (rnd' i) keys' = addr'"
      with 1(2) have "resample' rnd' (Suc n') keys' addr' = Some y'" by simp
      from 1(1)[OF this] a show False by simp
    qed
  qed
  with assms show False by simp
qed

lemma randomPick_few:
  assumes "length keys < 2" and "0 \<le> r" and "r < 1"
  shows "randomPick r keys = first keys"
proof (cases keys)
  case Nil
  then show ?thesis by (simp add: randomPick_def first_def)
next
  case (Cons k ks)
  with assms(1) have "ks = []" by simp
  with Cons assms(2,3) show ?thesis by (simp add: randomPick_def first_def)
qed

lemma generate_stuck:
  assumes "length keys < 2" and "\<forall>i. 0 \<le> rnd i \<and> rnd i < 1"
  shows "generate rnd keys (Suc k) n acc = None"
proof -
  have p: "\<forall>i. randomPick (rnd i) keys = first keys"
    using assms by (simp add: randomPick_few)
  then have "resample rnd (Suc n) keys (first keys) = None"
    by (rule resample_stuck)
  with p show ?thesis by simp
qed

text \<open>
  Over the road graph the generator does return when the source lets it: with the source
  that alternates between \<open>0\<close> and \<open>1 / 2\<close> each address is Alice's house and each
  place Daria's house, after four calls for two parcels.
\<close>

lemma VillageState_random_example:
  "VillageState_random alternating_source 0 2 =
     Some (VillageState (Some ''Post Office'')
             [Parcel (Some ''Daria's House'') (Some ''Alice's House''),
              Parcel (Some ''Daria's House'') (Some ''Alice's House'')], 4)"
proof -
  have k: "Object_keys roadGraph =
    [''Alice's House'', ''Bob's House'', ''Cabin'', ''Post Office'', ''Town Hall'',
     ''Daria's House'', ''Ernie's House'', ''Grete's House'', ''Farm'', ''Shop'', ''Marketplace'']"
    by (simp add: roadGraph_eq Object_keys_def)
  have a: "randomPick (alternating_source n) (Object_keys roadGraph) =
    Some (if even n then ''Alice's House'' else ''Daria's House'')" for n
    by (simp add: k randomPick_def alternating_source_def)
  have r: "resample alternating_source (Suc n) (Object_keys roadGraph) (Some ''Alice's House'') =
    Some (Some ''Daria's House'', Suc (Suc n))" if "even n" for n
    using that by (subst resample.simps) (simp add: a)
  have g: "generate alternating_source (Object_keys roadGraph) (Suc (Suc 0)) 0 [] =
    Some ([Parcel (Some ''Daria's House'') (Some ''Alice's House''),
           Parcel (Some ''Daria's House'') (Some ''Alice's House'')], Suc (Suc (Suc (Suc 0))))"
    by (simp add: a r Let_def)
  have two: "nat 2 = Suc (Suc 0)" and four: "Suc (Suc (Suc (Suc 0))) = 4" by simp_all
  show ?thesis
    unfolding VillageState_random_def random_in_def two g four by simp
qed

text \<open>
  The generator of the source has no graph parameter: it reads the road graph, which has
  eleven vertices. Only the generalised generator \<open>random_in\<close> can be run over a graph
  with fewer than two vertices. There it has no error to report: with a parcel count of at
  least one it does not return, since every place sampled equals the address (both are
  \<open>undefined\<close> when the graph has no vertex), and with a parcel count of zero or less it
  returns the state at the post office with no parcels.
\<close>

lemma roadGraph_vertices: "length (Object_keys roadGraph) = 11"
  by (simp add: roadGraph_eq Object_keys_def)

lemma random_in_few_vertices:
  assumes "length (Object_keys graph) < 2" and "\<forall>i. 0 \<le> rnd i \<and> rnd i < 1"
  shows "random_in graph rnd n parcelCount =
    (if 0 < parcelCount then None else Some (VillageState (Some ''Post Office'') [], n))"
proof (cases "0 < parcelCount")
  case True
  then obtain k where "nat parcelCount = Suc k"
    by (metis Suc_pred' zero_less_nat_eq)
  with True generate_stuck[OF assms] show ?thesis by (simp add: random_in_def)
next
  case False
  then show ?thesis by (simp add: random_in_def)
qed

section \<open>Built graphs are closed\<close>

lemma neighbours_no_key: "k \<notin> set (Object_keys graph) \<Longrightarrow> neighbours graph k = []"
  using lookup_None_iff[of graph k] by (simp add: neighbours_def)

lemma closed_addEdge2:
  assumes "closed graph"
  shows "closed (addEdge (addEdge graph a b) b a)"
  unfolding closed_def
proof (intro ballI)
  fix k c
  assume c: "c \<in> set (neighbours (addEdge (addEdge graph a b) b a) k)"
  have old: "c \<in> set (Object_keys graph)" if "c \<in> set (neighbours graph k')" for k'
  proof (cases "k' \<in> set (Object_keys graph)")
    case True
    with assms that show ?thesis unfolding closed_def by blast
  next
    case False
    with that show ?thesis by (simp add: neighbours_no_key)
  qed
  from c have "c \<in> set (neighbours graph k) \<or> c = a \<or> c = b"
    by (auto simp: neighbours_addEdge split: if_splits)
  then show "c \<in> set (Object_keys (addEdge (addEdge graph a b) b a))"
    using old by (auto simp: keys_addEdge)
qed

lemma closed_addEdges: "closed graph \<Longrightarrow> closed (addEdges graph es)"
  by (induction graph es rule: addEdges.induct) (simp_all add: closed_addEdge2)

lemma buildGraph_closed: "buildGraph edges = Some graph \<Longrightarrow> closed graph"
  using closed_addEdges[of "[]"] by (auto simp: buildGraph_def closed_def Object_keys_def)

lemma symmetric_member:
  "symmetric graph \<Longrightarrow> b \<in> set (neighbours graph a) \<Longrightarrow> a \<in> set (neighbours graph b)"
  unfolding symmetric_def by (metis count_list_0_iff)

lemma symmetric_closed:
  assumes "symmetric graph"
  shows "closed graph"
  unfolding closed_def
proof (intro ballI)
  fix k b
  assume "b \<in> set (neighbours graph k)"
  from symmetric_member[OF assms this] have "neighbours graph b \<noteq> []" by auto
  then show "b \<in> set (Object_keys graph)"
    using neighbours_no_key[of b graph] by blast
qed

section \<open>The route search\<close>

subsection \<open>Walks and the inner loop\<close>

lemma path_append:
  "path graph a (ps @ qs) = (path graph a ps \<and> path graph (last (a # ps)) qs)"
  by (induction ps arbitrary: a) auto

lemma path_snoc:
  "path graph a (ps @ [b]) = (path graph a ps \<and> b \<in> set (neighbours graph (last (a # ps))))"
  by (simp add: path_append)

lemma scan_found: "to \<in> set ns \<Longrightarrow> scan to rt ns work = Inl (rt @ [to])"
  by (induction ns arbitrary: work) auto

lemma scan_rest:
  "to \<notin> set ns \<Longrightarrow>
   \<exists>new. scan to rt ns work = Inr (work @ new) \<and> distinct (map work_item.at new) \<and>
     work_item.at ` set new = set ns - work_item.at ` set work \<and>
     (\<forall>w \<in> set new. route w = rt @ [work_item.at w])"
proof (induction ns arbitrary: work)
  case Nil
  then show ?case by simp
next
  case (Cons p rest)
  then have p: "p \<noteq> to" and rest: "to \<notin> set rest" by auto
  show ?case
  proof (cases "p \<in> work_item.at ` set work")
    case True
    then have "scan to rt (p # rest) work = scan to rt rest work"
      using p by (auto simp: list_ex_iff)
    moreover from Cons.IH[OF rest, of work] obtain new where
      "scan to rt rest work = Inr (work @ new)" "distinct (map work_item.at new)"
      "work_item.at ` set new = set rest - work_item.at ` set work"
      "\<forall>w \<in> set new. route w = rt @ [work_item.at w]" by blast
    ultimately show ?thesis using True by auto
  next
    case False
    let ?w = "Work p (rt @ [p])"
    from False have "scan to rt (p # rest) work = scan to rt rest (work @ [?w])"
      using p by (auto simp: list_ex_iff)
    moreover from Cons.IH[OF rest, of "work @ [?w]"] obtain new where new:
      "scan to rt rest (work @ [?w]) = Inr ((work @ [?w]) @ new)" "distinct (map work_item.at new)"
      "work_item.at ` set new = set rest - work_item.at ` set (work @ [?w])"
      "\<forall>w \<in> set new. route w = rt @ [work_item.at w]" by blast
    ultimately have 1: "scan to rt (p # rest) work = Inr (work @ (?w # new))" by simp
    have 2: "distinct (map work_item.at (?w # new))" using new(2,3) by auto
    have 3: "work_item.at ` set (?w # new) = set (p # rest) - work_item.at ` set work"
      using new(3) False by auto
    have 4: "\<forall>w \<in> set (?w # new). route w = rt @ [work_item.at w]" using new(4) by simp
    from 1 2 3 4 show ?thesis by blast
  qed
qed

lemma path_stays:
  "path graph a ps \<Longrightarrow> a \<in> S \<Longrightarrow> \<forall>k \<in> S. set (neighbours graph k) \<subseteq> S \<Longrightarrow> last (a # ps) \<in> S"
proof (induction ps arbitrary: a)
  case Nil
  then show ?case by simp
next
  case (Cons b ps)
  from Cons.prems have "path graph b ps" and "b \<in> S" by auto
  from Cons.IH[OF this Cons.prems(3)] show ?case by simp
qed

lemma buildGraph_neighbours_nonempty:
  assumes "buildGraph edges = Some graph" and "v \<in> set (Object_keys graph)"
  shows "neighbours graph v \<noteq> []"
  using buildGraph_adjacency[OF assms(1) lookup_neighbours[OF assms(2)]] .

subsection \<open>The invariant of the outer loop\<close>

lemma search_inv_processed:
  "search_inv graph from to i work \<Longrightarrow> j < i \<Longrightarrow> b \<in> set (neighbours graph (work_item.at (work ! j))) \<Longrightarrow>
   b \<in> work_item.at ` set work"
  unfolding search_inv_def by blast

lemma search_inv_from: "search_inv graph from to i work \<Longrightarrow> from \<in> work_item.at ` set work"
  unfolding search_inv_def by blast

lemma search_inv_item:
  "search_inv graph from to i work \<Longrightarrow> w \<in> set work \<Longrightarrow>
   shortest graph from (work_item.at w) (route w) \<and> from \<notin> set (route w) \<and>
   work_item.at w \<noteq> to \<and> work_item.at w \<in> set (Object_keys graph)"
  unfolding search_inv_def by blast

lemma search_inv_sorted:
  "search_inv graph from to i work \<Longrightarrow> sorted (map (\<lambda>w. length (route w)) work)"
  unfolding search_inv_def by blast

text \<open>The work list never holds more items than the graph has vertices.\<close>

lemma search_inv_bound:
  assumes "search_inv graph from to i work"
  shows "length work \<le> length (Object_keys graph)"
proof -
  from assms have d: "distinct (map work_item.at work)"
    and k: "set (map work_item.at work) \<subseteq> set (Object_keys graph)"
    unfolding search_inv_def by auto
  from d have "length work = card (set (map work_item.at work))"
    by (metis distinct_card length_map)
  also have "\<dots> \<le> card (set (Object_keys graph))"
    using k by (intro card_mono) simp_all
  also have "\<dots> \<le> length (Object_keys graph)" by (rule card_length)
  finally show ?thesis .
qed

lemma shortest_le:
  "shortest graph a b r \<Longrightarrow> path graph a ps \<Longrightarrow> last (a # ps) = b \<Longrightarrow> length r \<le> length ps"
  unfolding shortest_def by blast

lemma search_inv_reach:
  assumes inv: "search_inv graph from to i work" and i: "i < length work"
  shows "path graph from ps \<Longrightarrow> length ps \<le> length (route (work ! i)) \<Longrightarrow>
    last (from # ps) \<in> work_item.at ` set work"
proof (induction ps rule: rev_induct)
  case Nil
  from search_inv_from[OF inv] show ?case by simp
next
  case (snoc v qs)
  define u where "u = last (from # qs)"
  from snoc.prems have q: "path graph from qs" and v: "v \<in> set (neighbours graph u)"
    and len: "length qs < length (route (work ! i))"
    by (simp_all add: path_snoc u_def)
  from snoc.IH[OF q] len have "u \<in> work_item.at ` set work" by (simp add: u_def)
  then obtain j where j: "j < length work" "work_item.at (work ! j) = u"
    by (auto simp: in_set_conv_nth)
  from search_inv_item[OF inv, of "work ! j"] j(1)
  have "shortest graph from (work_item.at (work ! j)) (route (work ! j))" by simp
  from shortest_le[OF this q] j(2) have "length (route (work ! j)) \<le> length qs"
    by (simp add: u_def)
  with len have lt: "length (route (work ! j)) < length (route (work ! i))" by simp
  have "j < i"
  proof (rule ccontr)
    assume "\<not> j < i"
    then have "i \<le> j" by simp
    from sorted_nth_mono[OF search_inv_sorted[OF inv] \<open>i \<le> j\<close>] j(1) i
    have "length (route (work ! i)) \<le> length (route (work ! j))" by simp
    with lt show False by simp
  qed
  from search_inv_processed[OF inv this] v j(2) show ?case by simp
qed

lemma search_inv_end:
  assumes inv: "search_inv graph from to (length work) work"
  shows "path graph from ps \<Longrightarrow> last (from # ps) \<in> work_item.at ` set work"
proof (induction ps rule: rev_induct)
  case Nil
  from search_inv_from[OF inv] show ?case by simp
next
  case (snoc v qs)
  define u where "u = last (from # qs)"
  from snoc.prems have q: "path graph from qs" and v: "v \<in> set (neighbours graph u)"
    by (simp_all add: path_snoc u_def)
  from snoc.IH[OF q] obtain j where j: "j < length work" "work_item.at (work ! j) = u"
    by (auto simp: in_set_conv_nth u_def)
  from search_inv_processed[OF inv j(1)] v j(2) show ?case by simp
qed

lemma sorted_constant: "\<forall>x \<in> set xs. x = (c::nat) \<Longrightarrow> sorted xs"
  by (induction xs) auto

lemma search_inv_step:
  assumes inv: "search_inv graph from to i work" and i: "i < length work"
    and cl: "closed graph"
    and to: "to \<notin> set (neighbours graph (work_item.at (work ! i)))"
    and dist: "distinct (map work_item.at new)"
    and ats: "work_item.at ` set new =
      set (neighbours graph (work_item.at (work ! i))) - work_item.at ` set work"
    and routes: "\<forall>w \<in> set new. route w = route (work ! i) @ [work_item.at w]"
  shows "search_inv graph from to (Suc i) (work @ new)"
proof -
  define wi where "wi = work ! i"
  define d where "d = length (route wi)"
  have wi: "wi \<in> set work" using i by (simp add: wi_def)
  note item = search_inv_item[OF inv wi]
  from item have sh: "shortest graph from (work_item.at wi) (route wi)" by simp
  then have pw: "path graph from (route wi)" and lw: "last (from # route wi) = work_item.at wi"
    by (simp_all add: shortest_def)
  have old_le: "\<forall>w \<in> set work. length (route w) \<le> Suc d"
    using inv i by (simp add: search_inv_def d_def wi_def)
  have new_len: "\<forall>w \<in> set new. length (route w) = Suc d"
    using routes by (simp add: d_def wi_def)
  have new_item: "shortest graph from (work_item.at w) (route w) \<and> from \<notin> set (route w) \<and>
      work_item.at w \<noteq> to \<and> work_item.at w \<in> set (Object_keys graph)" if w: "w \<in> set new" for w
  proof -
    define p where "p = work_item.at w"
    from w ats have pn: "p \<in> set (neighbours graph (work_item.at wi))"
      and pw': "p \<notin> work_item.at ` set work"
      by (auto simp: p_def wi_def)
    from w routes have r: "route w = route wi @ [p]" by (simp add: p_def wi_def)
    have 1: "path graph from (route wi @ [p])"
      using pw pn lw by (simp only: path_snoc)
    have 2: "last (from # route wi @ [p]) = p" by simp
    have 3: "length (route wi @ [p]) \<le> length ps"
      if ps: "path graph from ps" "last (from # ps) = p" for ps
    proof (rule ccontr)
      assume "\<not> length (route wi @ [p]) \<le> length ps"
      then have "length ps \<le> length (route (work ! i))" by (simp add: wi_def)
      from search_inv_reach[OF inv i ps(1) this] ps(2) pw' show False by simp
    qed
    from 1 2 3 have "shortest graph from p (route wi @ [p])"
      unfolding shortest_def by blast
    moreover have "from \<noteq> p" using search_inv_from[OF inv] pw' by auto
    with item have "from \<notin> set (route wi @ [p])" by simp
    moreover have "p \<noteq> to" using pn to by (auto simp: wi_def)
    moreover have "p \<in> set (Object_keys graph)"
      using cl item pn unfolding closed_def by blast
    ultimately show ?thesis by (simp add: r p_def[symmetric])
  qed
  have c1: "Suc i \<le> length (work @ new)" using i by simp
  have c2: "distinct (map work_item.at (work @ new))"
    using inv dist ats by (auto simp: search_inv_def)
  have c3: "\<forall>w \<in> set (work @ new). shortest graph from (work_item.at w) (route w) \<and>
      from \<notin> set (route w) \<and> work_item.at w \<noteq> to \<and> work_item.at w \<in> set (Object_keys graph)"
    using new_item search_inv_item[OF inv] by auto
  have c4: "sorted (map (\<lambda>w. length (route w)) (work @ new))"
  proof -
    have "sorted (map (\<lambda>w. length (route w)) new)"
      by (rule sorted_constant[of _ "Suc d"]) (use new_len in auto)
    with search_inv_sorted[OF inv] old_le new_len show ?thesis
      by (auto simp: sorted_append)
  qed
  have all_le: "\<forall>w \<in> set (work @ new). length (route w) \<le> Suc d"
    using old_le new_len by auto
  have c5: "Suc i < length (work @ new) \<longrightarrow>
      (\<forall>w \<in> set (work @ new). length (route w) \<le> Suc (length (route ((work @ new) ! Suc i))))"
  proof
    assume s: "Suc i < length (work @ new)"
    from sorted_nth_mono[OF c4, of i "Suc i"] s
    have "length (route ((work @ new) ! i)) \<le> length (route ((work @ new) ! Suc i))"
      by (simp del: map_append)
    moreover have "(work @ new) ! i = wi" using i by (simp add: nth_append wi_def)
    ultimately have "d \<le> length (route ((work @ new) ! Suc i))" by (simp add: d_def)
    with all_le show "\<forall>w \<in> set (work @ new). length (route w) \<le> Suc (length (route ((work @ new) ! Suc i)))"
      by fastforce
  qed
  have c6: "\<forall>j < Suc i. set (neighbours graph (work_item.at ((work @ new) ! j))) \<subseteq>
      work_item.at ` set (work @ new)"
  proof (intro allI impI)
    fix j assume j: "j < Suc i"
    show "set (neighbours graph (work_item.at ((work @ new) ! j))) \<subseteq> work_item.at ` set (work @ new)"
    proof (cases "j = i")
      case True
      with i have "(work @ new) ! j = work ! i" by (simp add: nth_append)
      with ats show ?thesis by auto
    next
      case False
      with j have ji: "j < i" by simp
      with i have "(work @ new) ! j = work ! j" by (simp add: nth_append)
      with search_inv_processed[OF inv ji] show ?thesis by auto
    qed
  qed
  have c7: "from \<in> work_item.at ` set (work @ new)"
    using search_inv_from[OF inv] by auto
  from c1 c2 c3 c4 c5 c6 c7 show ?thesis
    unfolding search_inv_def by (intro conjI)
qed

lemma search_inv_init:
  assumes "from \<noteq> to" and "from \<in> set (Object_keys graph)"
  shows "search_inv graph from to 0 [Work from []]"
  using assms by (simp add: search_inv_def shortest_def)

lemma explore_correct:
  "search_inv graph from to i work \<Longrightarrow> closed graph \<Longrightarrow>
   (\<exists>r. explore graph to i work = Inr (Some r) \<and> shortest graph from to r \<and> from \<notin> set r) \<or>
   (explore graph to i work = Inr None \<and> \<not> reachable graph from to)"
proof (induction graph to i work rule: explore.induct)
  case (1 graph to i work)
  note inv = 1(2) and cl = 1(3)
  show ?case
  proof (cases "i < length work")
    case False
    with inv have il: "i = length work" by (simp add: search_inv_def)
    have "explore graph to i work = Inr None"
      using False by (subst explore.simps) simp
    moreover have "\<not> reachable graph from to"
    proof
      assume "reachable graph from to"
      then obtain ps where "path graph from ps" "last (from # ps) = to"
        by (auto simp: reachable_def)
      with search_inv_end[of graph "from" to work ps] inv il
      have "to \<in> work_item.at ` set work" by simp
      with search_inv_item[OF inv] show False by auto
    qed
    ultimately show ?thesis by simp
  next
    case True
    define wi where "wi = work ! i"
    define ns where "ns = neighbours graph (work_item.at wi)"
    have wi: "wi \<in> set work" using True by (simp add: wi_def)
    note item = search_inv_item[OF inv wi]
    from item have lk: "lookup graph (work_item.at (work ! i)) = Some ns"
      by (simp add: lookup_neighbours ns_def wi_def)
    show ?thesis
    proof (cases "to \<in> set ns")
      case yes: True
      let ?r = "route wi @ [to]"
      have ex: "explore graph to i work = Inr (Some ?r)"
        using True lk scan_found[OF yes] by (subst explore.simps) (simp add: wi_def)
      from item have pw: "path graph from (route wi)" and lw: "last (from # route wi) = work_item.at wi"
        by (simp_all add: shortest_def)
      have 1: "path graph from ?r"
        using pw yes lw by (simp only: path_snoc ns_def)
      have 2: "length ?r \<le> length ps" if ps: "path graph from ps" "last (from # ps) = to" for ps
      proof (rule ccontr)
        assume "\<not> length ?r \<le> length ps"
        then have "length ps \<le> length (route (work ! i))" by (simp add: wi_def)
        from search_inv_reach[OF inv True ps(1) this] ps(2)
        have "to \<in> work_item.at ` set work" by simp
        with search_inv_item[OF inv] show False by auto
      qed
      from 1 2 have "shortest graph from to ?r" unfolding shortest_def by simp
      moreover have "from \<noteq> to" using search_inv_from[OF inv] search_inv_item[OF inv] by auto
      with item have "from \<notin> set ?r" by simp
      ultimately show ?thesis using ex by blast
    next
      case no: False
      from scan_rest[OF no, of "route wi" work] obtain new where new:
        "scan to (route wi) ns work = Inr (work @ new)" "distinct (map work_item.at new)"
        "work_item.at ` set new = set ns - work_item.at ` set work"
        "\<forall>w \<in> set new. route w = route wi @ [work_item.at w]" by blast
      have ex: "explore graph to i work = explore graph to (i + 1) (work @ new)"
        using True lk new(1) by (subst explore.simps) (simp add: wi_def)
      have "search_inv graph from to (Suc i) (work @ new)"
        using search_inv_step[OF inv True cl] no new(2,3,4) by (simp add: ns_def wi_def)
      from 1(1)[OF True lk _ _ cl, of "work @ new"] new(1) this
      show ?thesis by (simp add: ex wi_def)
    qed
  qed
qed

lemma reachable_refl: "reachable graph a a"
  unfolding reachable_def by (rule exI[of _ "[]"]) simp

lemma findRoute_correct:
  assumes "closed graph" and "from \<in> set (Object_keys graph)" and "from \<noteq> to"
  shows "(\<exists>r. findRoute graph from to = Inr (Some r) \<and> shortest graph from to r \<and> from \<notin> set r) \<or>
    (findRoute graph from to = Inr None \<and> \<not> reachable graph from to)"
  unfolding findRoute_def
  using explore_correct[OF search_inv_init[OF assms(3,2)] assms(1)] .

text \<open>A search that starts at a label that is no vertex raises at its first iteration.\<close>

lemma findRoute_unknown_start:
  "from \<notin> set (Object_keys graph) \<Longrightarrow> findRoute graph from to = Inl TypeError"
  using lookup_None_iff[of graph "from"]
  unfolding findRoute_def by (subst explore.simps) simp

subsection \<open>Routes between distinct places\<close>

text \<open>
  C3. In a graph built by \<open>buildGraph\<close>, from a vertex \<open>from\<close> to a different place
  \<open>to\<close> that can be reached from it, \<open>findRoute\<close> returns a route. The route does not
  contain \<open>from\<close>, it ends with \<open>to\<close>, it follows the roads of the graph from \<open>from\<close>,
  and no walk from \<open>from\<close> to \<open>to\<close> has fewer hops: its length is the distance from
  \<open>from\<close> to \<open>to\<close>.
\<close>

theorem findRoute_shortest:
  assumes "buildGraph edges = Some graph" and "from \<in> set (Object_keys graph)"
    and "from \<noteq> to" and "reachable graph from to"
  shows "\<exists>r. findRoute graph from to = Inr (Some r) \<and> from \<notin> set r \<and> r \<noteq> [] \<and> last r = to \<and>
    path graph from r \<and>
    (\<forall>ps. path graph from ps \<and> last (from # ps) = to \<longrightarrow> length r \<le> length ps)"
proof -
  from findRoute_correct[OF buildGraph_closed[OF assms(1)] assms(2,3)] assms(4)
  obtain r where r: "findRoute graph from to = Inr (Some r)" "shortest graph from to r" "from \<notin> set r"
    by blast
  from r(2) have l: "last (from # r) = to" by (simp add: shortest_def)
  with assms(3) have "r \<noteq> []" by auto
  with l have "last r = to" by simp
  with r \<open>r \<noteq> []\<close> show ?thesis unfolding shortest_def by blast
qed

text \<open>
  From the post office \<open>findRoute\<close> returns the route to the town hall through
  Alice's house and Bob's house, which is no longer than the walk through the marketplace
  and the shop.
\<close>

theorem findRoute_shortest_witness:
  "buildGraph roads = Some roadGraph \<and> ''Post Office'' \<in> set (Object_keys roadGraph) \<and>
   ''Post Office'' \<noteq> ''Town Hall'' \<and> reachable roadGraph ''Post Office'' ''Town Hall'' \<and>
   findRoute roadGraph ''Post Office'' ''Town Hall'' =
     Inr (Some [''Alice's House'', ''Bob's House'', ''Town Hall'']) \<and>
   path roadGraph ''Post Office'' [''Alice's House'', ''Bob's House'', ''Town Hall''] \<and>
   length [''Alice's House'', ''Bob's House'', ''Town Hall''] \<le>
     length [''Marketplace'', ''Shop'', ''Town Hall'']"
proof -
  have k: "''Post Office'' \<in> set (Object_keys roadGraph)"
    by (simp add: roadGraph_eq Object_keys_def)
  have n: "''Post Office'' \<noteq> ''Town Hall''" by simp
  have other: "path roadGraph ''Post Office'' [''Marketplace'', ''Shop'', ''Town Hall'']"
    by (simp add: roadGraph_eq neighbours_def lookup_def)
  then have re: "reachable roadGraph ''Post Office'' ''Town Hall''"
    unfolding reachable_def by (intro exI[of _ "[''Marketplace'', ''Shop'', ''Town Hall'']"]) simp
  have f: "findRoute roadGraph ''Post Office'' ''Town Hall'' =
      Inr (Some [''Alice's House'', ''Bob's House'', ''Town Hall''])"
    by (simp add: findRoute_def explore.simps roadGraph_eq lookup_def)
  from findRoute_shortest[OF buildGraph_roads k n re] f
  have m: "path roadGraph ''Post Office'' [''Alice's House'', ''Bob's House'', ''Town Hall''] \<and>
    (\<forall>ps. path roadGraph ''Post Office'' ps \<and> last (''Post Office'' # ps) = ''Town Hall'' \<longrightarrow>
      length [''Alice's House'', ''Bob's House'', ''Town Hall''] \<le> length ps)"
    by auto
  then have "length [''Alice's House'', ''Bob's House'', ''Town Hall''] \<le>
      length [''Marketplace'', ''Shop'', ''Town Hall'']"
    using other by simp
  with m buildGraph_roads k n re f show ?thesis by blast
qed

subsection \<open>No route\<close>

text \<open>
  C6. \<open>explore\<close> is a total function: its termination proof above rests on the fact
  that the inner loop appends only places that are not yet in the work list, so that the
  work list never holds more items than there are places (\<open>scan_measure\<close>,
  \<open>search_inv_bound\<close>). In a closed graph (every graph
  of the data model is symmetric, hence closed; it may be disconnected), from a vertex
  \<open>from\<close> to a place \<open>to\<close> that cannot be reached from it, \<open>findRoute\<close> raises no
  error and returns \<open>undefined\<close>, its result when there is no route.
\<close>

theorem findRoute_unreachable:
  assumes "closed graph" and "from \<in> set (Object_keys graph)" and "\<not> reachable graph from to"
  shows "findRoute graph from to = Inr None"
proof -
  from assms(3) have "from \<noteq> to" using reachable_refl by auto
  from findRoute_correct[OF assms(1,2) this] show ?thesis
  proof
    assume "\<exists>r. findRoute graph from to = Inr (Some r) \<and> shortest graph from to r \<and> from \<notin> set r"
    then obtain r where "shortest graph from to r" by blast
    then have "reachable graph from to" unfolding shortest_def reachable_def by blast
    with assms(3) show ?thesis by simp
  next
    assume "findRoute graph from to = Inr None \<and> \<not> reachable graph from to"
    then show ?thesis by simp
  qed
qed

text \<open>
  The graph of the edges \<open>A-B\<close> and \<open>C-D\<close> is disconnected: no walk leaves
  \<open>{A, B}\<close>, and the search from \<open>A\<close> for \<open>C\<close> returns \<open>undefined\<close>.
\<close>

theorem findRoute_unreachable_witness:
  "buildGraph [''A-B'', ''C-D''] =
     Some [(''A'', [''B'']), (''B'', [''A'']), (''C'', [''D'']), (''D'', [''C''])] \<and>
   closed [(''A'', [''B'']), (''B'', [''A'']), (''C'', [''D'']), (''D'', [''C''])] \<and>
   ''A'' \<in> set (Object_keys [(''A'', [''B'']), (''B'', [''A'']), (''C'', [''D'']), (''D'', [''C''])]) \<and>
   \<not> reachable [(''A'', [''B'']), (''B'', [''A'']), (''C'', [''D'']), (''D'', [''C''])] ''A'' ''C'' \<and>
   findRoute [(''A'', [''B'']), (''B'', [''A'']), (''C'', [''D'']), (''D'', [''C''])] ''A'' ''C'' = Inr None"
proof -
  let ?g = "[(''A'', [''B'']), (''B'', [''A'']), (''C'', [''D'']), (''D'', [''C''])]"
  have b: "buildGraph [''A-B'', ''C-D''] = Some ?g"
    by (simp add: buildGraph_def endpoints_def)
  have c: "closed ?g"
    by (simp add: closed_def Object_keys_def neighbours_def lookup_def)
  have k: "''A'' \<in> set (Object_keys ?g)" by (simp add: Object_keys_def)
  have s: "\<forall>k \<in> {''A'', ''B''}. set (neighbours ?g k) \<subseteq> {''A'', ''B''}"
    by (simp add: neighbours_def lookup_def)
  have r: "\<not> reachable ?g ''A'' ''C''"
  proof
    assume "reachable ?g ''A'' ''C''"
    then obtain ps where "path ?g ''A'' ps" "last (''A'' # ps) = ''C''"
      unfolding reachable_def by blast
    with path_stays[of ?g "''A''" ps "{''A'', ''B''}", OF _ _ s] show False by simp
  qed
  from findRoute_unreachable[OF c k r] b c k r show ?thesis by blast
qed

subsection \<open>A route from a place to itself\<close>

text \<open>
  C4, as the code has it. The start is in the work list from the beginning but is never
  compared with the target, so the search from a vertex \<open>v\<close> of a built graph to \<open>v\<close>
  itself returns a round trip, never the empty route: \<open>[v]\<close> when \<open>v\<close> is its own
  neighbour, and otherwise \<open>[u, v]\<close> where \<open>u\<close> is the first neighbour of \<open>v\<close>.
\<close>

theorem findRoute_same_place:
  assumes "buildGraph edges = Some graph" and "v \<in> set (Object_keys graph)"
  shows "findRoute graph v v =
    Inr (Some (if v \<in> set (neighbours graph v) then [v] else [hd (neighbours graph v), v]))"
proof (cases "v \<in> set (neighbours graph v)")
  case True
  have "explore graph v 0 [Work v []] = Inr (Some [v])"
    using lookup_neighbours[OF assms(2)] scan_found[OF True, of "[]" "[Work v []]"]
    by (subst explore.simps) simp
  with True show ?thesis by (simp add: findRoute_def)
next
  case False
  from buildGraph_neighbours_nonempty[OF assms] obtain u rest where
    ns: "neighbours graph v = u # rest" by (cases "neighbours graph v") auto
  with False have uv: "u \<noteq> v" and rest: "v \<notin> set rest" by auto
  let ?w = "[Work v [], Work u [u]]"
  from scan_rest[OF rest, of "[]" ?w] obtain new where
    new: "scan v [] rest ?w = Inr (?w @ new)" by blast
  have sc: "scan v [] (neighbours graph v) [Work v []] = Inr (?w @ new)"
    using uv new by (simp add: ns)
  have 0: "explore graph v 0 [Work v []] = explore graph v 1 (?w @ new)"
    using lookup_neighbours[OF assms(2)] sc by (subst explore.simps) simp
  have "u \<in> set (neighbours graph v)" by (simp add: ns)
  then have uk: "u \<in> set (Object_keys graph)" and vu: "v \<in> set (neighbours graph u)"
    using buildGraph_closed[OF assms(1)] assms(2) symmetric_member[OF buildGraph_symmetric[OF assms(1)]]
    unfolding closed_def by blast+
  have 1: "explore graph v 1 (?w @ new) = Inr (Some [u, v])"
    using lookup_neighbours[OF uk] scan_found[OF vu, of "[u]" "?w @ new"]
    by (subst explore.simps) simp
  from 0 1 False show ?thesis by (simp add: findRoute_def ns)
qed

theorem findRoute_same_place_witness:
  "buildGraph roads = Some roadGraph \<and> ''Post Office'' \<in> set (Object_keys roadGraph) \<and>
   findRoute roadGraph ''Post Office'' ''Post Office'' =
     Inr (Some [''Alice's House'', ''Post Office''])"
proof -
  have k: "''Post Office'' \<in> set (Object_keys roadGraph)"
    by (simp add: roadGraph_eq Object_keys_def)
  have n: "neighbours roadGraph ''Post Office'' = [''Alice's House'', ''Marketplace'']"
    by (simp add: roadGraph_eq neighbours_def lookup_def)
  from findRoute_same_place[OF buildGraph_roads k] buildGraph_roads k show ?thesis
    by (simp add: n)
qed

text \<open>
  C4, as stated, fails: the route from the post office to the post office goes to Alice's
  house and back, and is not empty.
\<close>

theorem findRoute_same_place_counterexample:
  "buildGraph roads = Some roadGraph \<and> ''Post Office'' \<in> set (Object_keys roadGraph) \<and>
   findRoute roadGraph ''Post Office'' ''Post Office'' =
     Inr (Some [''Alice's House'', ''Post Office'']) \<and>
   findRoute roadGraph ''Post Office'' ''Post Office'' \<noteq> Inr (Some [])"
proof -
  have k: "''Post Office'' \<in> set (Object_keys roadGraph)"
    by (simp add: roadGraph_eq Object_keys_def)
  have f: "findRoute roadGraph ''Post Office'' ''Post Office'' =
      Inr (Some [''Alice's House'', ''Post Office''])"
    by (simp add: findRoute_def explore.simps roadGraph_eq lookup_def)
  from buildGraph_roads k f show ?thesis by simp
qed

section \<open>The goal-oriented robot\<close>

text \<open>
  The mail route is a closed walk from the post office through every place of the road
  graph, so every place can be reached from every other place.
\<close>

lemma path_mailRoute: "path roadGraph ''Post Office'' mailRoute"
  by (simp add: mailRoute_def roadGraph_eq neighbours_def lookup_def)

lemma keys_mailRoute: "set (Object_keys roadGraph) = set mailRoute"
  by (auto simp: mailRoute_def roadGraph_eq Object_keys_def)

lemma last_mailRoute: "last (''Post Office'' # mailRoute) = ''Post Office''"
  by (simp add: mailRoute_def)

lemma reachable_trans:
  assumes "reachable graph a b" and "reachable graph b c"
  shows "reachable graph a c"
proof -
  from assms obtain ps qs where ps: "path graph a ps" "last (a # ps) = b"
    and qs: "path graph b qs" "last (b # qs) = c"
    unfolding reachable_def by blast
  have "path graph a (ps @ qs)" using ps qs(1) by (simp only: path_append)
  moreover have "last (a # ps @ qs) = c"
  proof (cases qs)
    case Nil
    with ps(2) qs(2) show ?thesis by simp
  next
    case (Cons q qs')
    with qs(2) show ?thesis by simp
  qed
  ultimately show ?thesis unfolding reachable_def by blast
qed

lemma reachable_on_path:
  assumes "path graph a ps" and "b \<in> set ps"
  shows "reachable graph a b \<and> reachable graph b (last (a # ps))"
proof -
  from assms(2) obtain xs ys where s: "ps = xs @ b # ys" by (auto simp: in_set_conv_decomp)
  then have "ps = (xs @ [b]) @ ys" by simp
  with assms(1) have 1: "path graph a (xs @ [b])" and 2: "path graph (last (a # xs @ [b])) ys"
    by (simp_all only: path_append)
  from 1 have "reachable graph a b"
    unfolding reachable_def by (intro exI[of _ "xs @ [b]"]) simp
  moreover from 2 have "path graph b ys" by simp
  then have "reachable graph b (last (a # ps))"
    unfolding reachable_def by (intro exI[of _ ys]) (simp add: s)
  ultimately show ?thesis by simp
qed

lemma roadGraph_connected:
  assumes "a \<in> set (Object_keys roadGraph)" and "b \<in> set (Object_keys roadGraph)"
  shows "reachable roadGraph a b"
proof -
  from assms have "a \<in> set mailRoute" "b \<in> set mailRoute" by (simp_all add: keys_mailRoute)
  from reachable_on_path[OF path_mailRoute this(1)] reachable_on_path[OF path_mailRoute this(2)]
  have "reachable roadGraph a ''Post Office''" "reachable roadGraph ''Post Office'' b"
    by (simp_all only: last_mailRoute)
  then show ?thesis by (rule reachable_trans)
qed

lemma roadGraph_route:
  assumes "a \<in> set (Object_keys roadGraph)" and "b \<in> set (Object_keys roadGraph)" and "a \<noteq> b"
  shows "\<exists>r. r \<noteq> [] \<and> findRoute roadGraph a b = Inr (Some r)"
proof -
  from findRoute_correct[OF buildGraph_closed[OF buildGraph_roads] assms(1,3)]
    roadGraph_connected[OF assms(1,2)]
  obtain r where r: "findRoute roadGraph a b = Inr (Some r)" "shortest roadGraph a b r" by blast
  from r(2) assms(3) have "r \<noteq> []" by (auto simp: shortest_def)
  with r(1) show ?thesis by blast
qed

text \<open>
  C7. Let \<open>p\<close> be the first parcel of the state \<open>s\<close>. With a memory \<open>m\<close> that is not
  empty the robot returns the head of \<open>m\<close> as direction and its tail as memory. With an
  empty memory, whenever the robot returns, it returns the head and the tail of the route
  that \<open>findRoute\<close> computes in the road graph from the place of \<open>s\<close> to the place of
  \<open>p\<close> when \<open>p\<close> is elsewhere, and to the address of \<open>p\<close> when \<open>p\<close> is at the place of
  \<open>s\<close>. In a world state of the data model (the place of \<open>s\<close>, the place and the address
  of \<open>p\<close> are vertices of the road graph, and \<open>p\<close> is not at its address) that route exists
  and is not empty, and the robot does return.
\<close>

theorem goalOrientedRobot_route:
  assumes "parcels s = p # ps"
  shows "(m \<noteq> [] \<longrightarrow> goalOrientedRobot s m = Inr (Action (Some (hd m)) (Some (tl m)))) \<and>
    (m = [] \<longrightarrow>
       (\<forall>a. goalOrientedRobot s m = Inr a \<longrightarrow>
          (\<exists>r. findRoute roadGraph (VillageState.place s)
                 (if parcel.place p \<noteq> VillageState.place s then parcel.place p else address p) =
                 Inr (Some r) \<and>
               a = Action (first r) (Some (drop 1 r))))) \<and>
    (m = [] \<longrightarrow> VillageState.place s \<in> set (Object_keys roadGraph) \<longrightarrow>
       parcel.place p \<in> set (Object_keys roadGraph) \<longrightarrow> address p \<in> set (Object_keys roadGraph) \<longrightarrow>
       parcel.place p \<noteq> address p \<longrightarrow>
       (\<exists>r. r \<noteq> [] \<and>
          findRoute roadGraph (VillageState.place s)
            (if parcel.place p \<noteq> VillageState.place s then parcel.place p else address p) =
            Inr (Some r) \<and>
          goalOrientedRobot s m = Inr (Action (Some (hd r)) (Some (tl r)))))"
proof (intro conjI impI)
  assume "m \<noteq> []"
  then show "goalOrientedRobot s m = Inr (Action (Some (hd m)) (Some (tl m)))"
    by (simp add: goalOrientedRobot_def first_hd drop_Suc)
next
  assume m: "m = []"
  show "\<forall>a. goalOrientedRobot s m = Inr a \<longrightarrow>
          (\<exists>r. findRoute roadGraph (VillageState.place s)
                 (if parcel.place p \<noteq> VillageState.place s then parcel.place p else address p) =
                 Inr (Some r) \<and>
               a = Action (first r) (Some (drop 1 r)))"
    using assms m by (auto simp: goalOrientedRobot_def split: sum.splits option.splits)
next
  assume m: "m = []" and k: "VillageState.place s \<in> set (Object_keys roadGraph)"
    "parcel.place p \<in> set (Object_keys roadGraph)" "address p \<in> set (Object_keys roadGraph)"
    and d: "parcel.place p \<noteq> address p"
  define target where
    "target = (if parcel.place p \<noteq> VillageState.place s then parcel.place p else address p)"
  have "target \<in> set (Object_keys roadGraph)" "VillageState.place s \<noteq> target"
    using k d by (auto simp: target_def)
  from roadGraph_route[OF k(1) this] obtain r where
    r: "r \<noteq> []" "findRoute roadGraph (VillageState.place s) target = Inr (Some r)" by blast
  have "goalOrientedRobot s m = Inr (Action (first r) (Some (drop 1 r)))"
    using assms m r(2) by (auto simp: goalOrientedRobot_def target_def)
  with r show "\<exists>r. r \<noteq> [] \<and>
          findRoute roadGraph (VillageState.place s)
            (if parcel.place p \<noteq> VillageState.place s then parcel.place p else address p) =
            Inr (Some r) \<and>
          goalOrientedRobot s m = Inr (Action (Some (hd r)) (Some (tl r)))"
    unfolding target_def by (auto simp: first_hd drop_Suc)
qed

theorem goalOrientedRobot_route_witness:
  "goalOrientedRobot (VillageState ''Post Office'' [Parcel ''Farm'' ''Shop'']) [] =
     Inr (Action (Some ''Marketplace'') (Some [''Farm''])) \<and>
   goalOrientedRobot (VillageState ''Post Office'' [Parcel ''Post Office'' ''Cabin'']) [] =
     Inr (Action (Some ''Alice's House'') (Some [''Cabin''])) \<and>
   goalOrientedRobot (VillageState ''Post Office'' [Parcel ''Farm'' ''Shop'']) [''Shop'', ''Town Hall''] =
     Inr (Action (Some ''Shop'') (Some [''Town Hall'']))"
proof -
  let ?s = "VillageState ''Post Office'' [Parcel ''Farm'' ''Shop'']"
  let ?t = "VillageState ''Post Office'' [Parcel ''Post Office'' ''Cabin'']"
  have k: "''Post Office'' \<in> set (Object_keys roadGraph)" "''Farm'' \<in> set (Object_keys roadGraph)"
    "''Shop'' \<in> set (Object_keys roadGraph)" "''Cabin'' \<in> set (Object_keys roadGraph)"
    by (simp_all add: roadGraph_eq Object_keys_def)
  have f: "findRoute roadGraph ''Post Office'' ''Farm'' = Inr (Some [''Marketplace'', ''Farm''])"
    "findRoute roadGraph ''Post Office'' ''Cabin'' = Inr (Some [''Alice's House'', ''Cabin''])"
    by (simp_all add: findRoute_def explore.simps roadGraph_eq lookup_def)
  note a = goalOrientedRobot_route[of ?s "Parcel ''Farm'' ''Shop''" "[]" "[]"]
  note b = goalOrientedRobot_route[of ?t "Parcel ''Post Office'' ''Cabin''" "[]" "[]"]
  note c = goalOrientedRobot_route[of ?s "Parcel ''Farm'' ''Shop''" "[]" "[''Shop'', ''Town Hall'']"]
  have 1: "goalOrientedRobot ?s [] = Inr (Action (Some ''Marketplace'') (Some [''Farm'']))"
    using a k f by auto
  have 2: "goalOrientedRobot ?t [] = Inr (Action (Some ''Alice's House'') (Some [''Cabin'']))"
    using b k f by auto
  have 3: "goalOrientedRobot ?s [''Shop'', ''Town Hall''] = Inr (Action (Some ''Shop'') (Some [''Town Hall'']))"
    using c by simp
  from 1 2 3 show ?thesis by simp
qed

end
